theory Spec2Isabelle
  imports
    Main
    "HOL-Library.AList"
    "HOL-Library.Char_ord"
    "HOL-Library.List_Lexorder"
    "HOL-Library.Product_Lexorder"
begin

section \<open>Data model of \<^verbatim>\<open>famtree/core.py\<close>\<close>

text \<open>
  A \<^verbatim>\<open>UUID\<close> is an opaque identifier that is only ever compared for equality and used
  as a dictionary key; it is modelled as a natural number. Every \<^verbatim>\<open>UUID\<close> object is
  truthy, so \<^verbatim>\<open>if person_id:\<close> tests for \<^verbatim>\<open>None\<close> only.
\<close>

type_synonym uuid = nat

datatype gender = MALE | FEMALE | OTHER

record person =
  name :: string
  gender :: gender
  birth_year :: int
  death_year :: "int option"

record marriage =
  children :: "uuid list"

text \<open>\<^verbatim>\<open>Edge\<close> compares and hashes structurally on \<^verbatim>\<open>(source, target)\<close>.\<close>

record edge =
  source :: uuid
  target :: uuid

datatype node = PersonNode person | MarriageNode marriage

text \<open>
  A Python \<^verbatim>\<open>dict\<close> keeps insertion order, and several operations depend on it (the
  first value, the first key, \<^verbatim>\<open>sorted\<close> over the items), so a dictionary is an
  association list in iteration order. \<^verbatim>\<open>d[k] = v\<close> is \<^const>\<open>AList.update\<close> (an
  existing key keeps its position, a new key is appended) and \<^verbatim>\<open>del d[k]\<close> is
  \<^const>\<open>AList.delete\<close>. A \<^verbatim>\<open>set\<close> of edges is a list of its elements in iteration
  order; the operations below never depend on that order beyond what is proved.
\<close>

text \<open>
  Objects are modelled by value: a \<^verbatim>\<open>Person\<close> or \<^verbatim>\<open>Marriage\<close> object is the value
  stored under its key, and assigning to a field of the object is an update of the
  dictionary entry. Sharing of one object between two graphs (after \<^verbatim>\<open>merge\<close>) is not
  modelled; no property below speaks about it.
\<close>

record family_tree =
  people :: "(uuid \<times> person) list"
  marriages :: "(uuid \<times> marriage) list"
  edges :: "edge list"

text \<open>The exceptions the module can raise.\<close>

datatype error = KeyError uuid | ValueError string | RecursionError

definition empty_tree :: family_tree where
  "empty_tree = \<lparr>people = [], marriages = [], edges = []\<rparr>"

text \<open>\<^verbatim>\<open>k in d\<close> for a dictionary.\<close>

definition has_key :: "'k \<Rightarrow> ('k \<times> 'v) list \<Rightarrow> bool" where
  "has_key k d = (k \<in> set (map fst d))"

text \<open>\<^verbatim>\<open>dict(items)\<close>, also \<^verbatim>\<open>{**a, **b}\<close> as \<open>dict_of (a @ b)\<close>.\<close>

definition dict_of :: "('k \<times> 'v) list \<Rightarrow> ('k \<times> 'v) list" where
  "dict_of xs = fold (\<lambda>(k, v). AList.update k v) xs []"

text \<open>\<^verbatim>\<open>s.add(x)\<close> and \<^verbatim>\<open>s.update(t)\<close> for a set.\<close>

definition set_add :: "'a \<Rightarrow> 'a list \<Rightarrow> 'a list" where
  "set_add x s = (if x \<in> set s then s else s @ [x])"

definition set_update :: "'a list \<Rightarrow> 'a list \<Rightarrow> 'a list" where
  "set_update s t = fold set_add t s"

text \<open>The well-formedness of the representation: dictionary keys and set elements are distinct.\<close>

definition wf_tree :: "family_tree \<Rightarrow> bool" where
  "wf_tree t = (distinct (map fst (people t)) \<and> distinct (map fst (marriages t))
                \<and> distinct (edges t))"

section \<open>The graph store\<close>

text \<open>\<^verbatim>\<open>nodes\<close>: \<^verbatim>\<open>{**self.people, **self.marriages}\<close>.\<close>

definition nodes :: "family_tree \<Rightarrow> (uuid \<times> node) list" where
  "nodes t = dict_of (map (\<lambda>(k, p). (k, PersonNode p)) (people t)
                      @ map (\<lambda>(k, m). (k, MarriageNode m)) (marriages t))"

text \<open>
  \<^verbatim>\<open>adjacency_list\<close> is a \<^verbatim>\<open>defaultdict(set)\<close>: a total function from identifiers to
  sets, empty by default.
\<close>

type_synonym adjacency = "uuid \<Rightarrow> uuid list"

definition adj_add :: "uuid \<Rightarrow> uuid \<Rightarrow> adjacency \<Rightarrow> adjacency" where
  "adj_add a b adj = adj(a := set_add b (adj a))"

definition adj_edge :: "edge \<Rightarrow> adjacency \<Rightarrow> adjacency" where
  "adj_edge e adj = adj_add (target e) (source e) (adj_add (source e) (target e) adj)"

definition adj_child :: "uuid \<Rightarrow> uuid \<Rightarrow> adjacency \<Rightarrow> adjacency" where
  "adj_child node_id child adj = adj_add child node_id (adj_add node_id child adj)"

definition adj_node :: "uuid \<times> node \<Rightarrow> adjacency \<Rightarrow> adjacency" where
  "adj_node kn adj =
     (case snd kn of
        MarriageNode m \<Rightarrow> fold (adj_child (fst kn)) (children m) adj
      | PersonNode p \<Rightarrow> adj)"

definition adjacency_list :: "family_tree \<Rightarrow> adjacency" where
  "adjacency_list t = fold adj_node (nodes t) (fold adj_edge (edges t) (\<lambda>_. []))"

text \<open>
  The nested function \<^verbatim>\<open>dfs\<close> of \<^verbatim>\<open>connected\<close>. The first argument is the number of
  stack frames the interpreter still allows: a call with none left raises
  \<^verbatim>\<open>RecursionError\<close>. \<open>dfs_loop\<close> is the \<^verbatim>\<open>for neighbor in adjacency_list[node_id]\<close>
  loop of one call, the last argument is the shared \<^verbatim>\<open>visited\<close> set.
\<close>

fun dfs :: "nat \<Rightarrow> adjacency \<Rightarrow> uuid \<Rightarrow> uuid set \<Rightarrow> error + uuid set"
  and dfs_loop :: "nat \<Rightarrow> adjacency \<Rightarrow> uuid list \<Rightarrow> uuid set \<Rightarrow> error + uuid set"
where
  "dfs 0 adj node_id visited = Inl RecursionError"
| "dfs (Suc d) adj node_id visited = dfs_loop d adj (adj node_id) (insert node_id visited)"
| "dfs_loop d adj [] visited = Inr visited"
| "dfs_loop d adj (neighbor # rest) visited =
     (if neighbor \<notin> visited then
        (case dfs d adj neighbor visited of
           Inl e \<Rightarrow> Inl e
         | Inr visited' \<Rightarrow> dfs_loop d adj rest visited')
      else dfs_loop d adj rest visited)"

text \<open>\<^verbatim>\<open>connected\<close>, with the recursion depth available to \<^verbatim>\<open>dfs\<close> as a parameter.\<close>

definition connected :: "nat \<Rightarrow> family_tree \<Rightarrow> error + bool" where
  "connected limit t =
     (if nodes t = [] then Inr True
      else
        (case dfs limit (adjacency_list t) (fst (hd (nodes t))) {} of
           Inl e \<Rightarrow> Inl e
         | Inr visited \<Rightarrow> Inr (card visited = length (nodes t))))"

section \<open>The ordering engine\<close>

text \<open>The key of \<^verbatim>\<open>sort\<close>: a tuple compared lexicographically, \<^verbatim>\<open>False < True\<close>.\<close>

definition sort_key_of :: "uuid \<times> person \<Rightarrow> bool \<times> bool \<times> int \<times> string" where
  "sort_key_of item =
     (gender (snd item) \<noteq> MALE, gender (snd item) \<noteq> FEMALE,
      birth_year (snd item), name (snd item))"

text \<open>\<^verbatim>\<open>sorted\<close> is stable, as \<^const>\<open>sort_key\<close> is.\<close>

definition sort_people :: "family_tree \<Rightarrow> family_tree" where
  "sort_people t = t\<lparr>people := dict_of (sort_key sort_key_of (people t))\<rparr>"

section \<open>The mutation engine\<close>

text \<open>
  \<^verbatim>\<open>uuid4()\<close> is an input of the model: the identifier it returns is the first argument
  of \<open>create_person\<close> and \<open>create_marriage\<close>.
\<close>

definition create_person ::
  "uuid \<Rightarrow> string \<Rightarrow> gender \<Rightarrow> int \<Rightarrow> int option \<Rightarrow> family_tree \<Rightarrow> person \<times> family_tree" where
  "create_person new_id n g b d t =
     (case find (\<lambda>p. name p = n \<and> gender p = g \<and> birth_year p = b \<and> death_year p = d)
                (map snd (people t)) of
        Some p \<Rightarrow> (p, t)
      | None \<Rightarrow>
          (let p = \<lparr>name = n, gender = g, birth_year = b, death_year = d\<rparr>
           in (p, t\<lparr>people := AList.update new_id p (people t)\<rparr>)))"

text \<open>
  \<^verbatim>\<open>x or y\<close> on the three updatable fields. Every \<^verbatim>\<open>Gender\<close> is a non-empty string and
  so truthy; an integer is falsy when it is \<^verbatim>\<open>0\<close>; \<^verbatim>\<open>None\<close> is falsy.
\<close>

definition or_gender :: "gender option \<Rightarrow> gender \<Rightarrow> gender" where
  "or_gender x y = (case x of None \<Rightarrow> y | Some g \<Rightarrow> g)"

definition or_birth :: "int option \<Rightarrow> int \<Rightarrow> int" where
  "or_birth x y = (case x of None \<Rightarrow> y | Some b \<Rightarrow> if b = 0 then y else b)"

definition or_death :: "int option \<Rightarrow> int option \<Rightarrow> int option" where
  "or_death x y = (case x of None \<Rightarrow> y | Some d \<Rightarrow> if d = 0 then y else Some d)"

definition assign_fields :: "gender option \<Rightarrow> int option \<Rightarrow> int option \<Rightarrow> person \<Rightarrow> person" where
  "assign_fields g b d p =
     p\<lparr>gender := or_gender g (gender p),
       birth_year := or_birth b (birth_year p),
       death_year := or_death d (death_year p)\<rparr>"

text \<open>
  \<^verbatim>\<open>update_person\<close> mutates the \<^verbatim>\<open>Person\<close> object it found; in the model the object is
  the entry of the dictionary under its key, so a match carries its key.
\<close>

definition update_person ::
  "string \<Rightarrow> gender option \<Rightarrow> int option \<Rightarrow> int option \<Rightarrow> uuid option \<Rightarrow> family_tree
   \<Rightarrow> error + person \<times> family_tree" where
  "update_person n g b d person_id t =
     (case person_id of
        Some pid \<Rightarrow>
          (case map_of (people t) pid of
             None \<Rightarrow> Inl (KeyError pid)
           | Some p \<Rightarrow>
               (let p' = assign_fields g b d p
                in Inr (p', t\<lparr>people := AList.update pid p' (people t)\<rparr>)))
      | None \<Rightarrow>
          (let matches = filter (\<lambda>(k, p). name p = n) (people t) in
           if matches = [] then Inl (ValueError ''Person not found'')
           else if length matches > 1
             then Inl (ValueError ''Multiple people found, please provide the person ID'')
           else
             (let (k, p) = hd matches; p' = assign_fields g b d p
              in Inr (p', t\<lparr>people := AList.update k p' (people t)\<rparr>))))"

text \<open>\<^verbatim>\<open>children or []\<close>.\<close>

definition or_children :: "uuid list option \<Rightarrow> uuid list" where
  "or_children c = (case c of None \<Rightarrow> [] | Some cs \<Rightarrow> cs)"

definition create_marriage ::
  "uuid \<Rightarrow> uuid \<Rightarrow> uuid \<Rightarrow> uuid list option \<Rightarrow> family_tree \<Rightarrow> marriage \<times> family_tree" where
  "create_marriage marriage_id spouse1_id spouse2_id c t =
     (let m = \<lparr>children = or_children c\<rparr>
      in (m, t\<lparr>marriages := AList.update marriage_id m (marriages t),
               edges := set_add \<lparr>source = spouse2_id, target = marriage_id\<rparr>
                          (set_add \<lparr>source = spouse1_id, target = marriage_id\<rparr> (edges t))\<rparr>))"

text \<open>
  \<^verbatim>\<open>spouse1_marriages\<close> and \<^verbatim>\<open>spouse2_marriages\<close> of \<^verbatim>\<open>update_marriage\<close>.
\<close>

definition spouse_marriages :: "uuid \<Rightarrow> family_tree \<Rightarrow> uuid list" where
  "spouse_marriages spouse_id t =
     map target (filter (\<lambda>e. source e = spouse_id \<and> has_key (target e) (marriages t)) (edges t))"

text \<open>
  The body of the loop over \<^verbatim>\<open>self.marriages.values()\<close> returns on both of its paths,
  so only the first marriage of the dictionary is ever looked at. The generator
  \<^verbatim>\<open>(marriage for marriage_id in spouse1_marriages if marriage_id in spouse2_marriages)\<close>
  yields the loop variable \<^verbatim>\<open>marriage\<close>, not the marriage stored under \<^verbatim>\<open>marriage_id\<close>.
  A \<^verbatim>\<open>Marriage\<close> object is always truthy.
\<close>

definition update_marriage ::
  "uuid \<Rightarrow> uuid \<Rightarrow> uuid list option \<Rightarrow> family_tree \<Rightarrow> marriage option \<times> family_tree" where
  "update_marriage spouse1_id spouse2_id c t =
     (case marriages t of
        [] \<Rightarrow> (None, t)
      | (k, m) # rest \<Rightarrow>
          (let spouse1_marriages = spouse_marriages spouse1_id t;
               spouse2_marriages = spouse_marriages spouse2_id t;
               matched_marriage =
                 (case filter (\<lambda>marriage_id. marriage_id \<in> set spouse2_marriages)
                              spouse1_marriages of
                    [] \<Rightarrow> None
                  | marriage_id # _ \<Rightarrow> Some (k, m))
           in case matched_marriage of
                Some (k', m') \<Rightarrow>
                  (let m'' = m'\<lparr>children := or_children c\<rparr>
                   in (Some m'', t\<lparr>marriages := AList.update k' m'' (marriages t)\<rparr>))
              | None \<Rightarrow> (None, t)))"



section \<open>The merge engine\<close>

definition merge :: "family_tree \<Rightarrow> family_tree \<Rightarrow> family_tree" where
  "merge t other =
     t\<lparr>people := fold (\<lambda>(person_id, p). AList.update person_id p) (people other) (people t),
       marriages := fold (\<lambda>(marriage_id, m). AList.update marriage_id m)
                         (marriages other) (marriages t),
       edges := set_update (edges t) (edges other)\<rparr>"

section \<open>Reachability in the words of the specification\<close>

text \<open>
  The links of a graph: the stored edges and, for every marriage, a link from the
  marriage to each of its children. The connectivity of the specification treats
  them as undirected.
\<close>

definition link_list :: "family_tree \<Rightarrow> (uuid \<times> uuid) list" where
  "link_list t =
     map (\<lambda>e. (source e, target e)) (edges t)
     @ concat (map (\<lambda>(k, m). map (Pair k) (children m)) (marriages t))"

definition undirected :: "family_tree \<Rightarrow> (uuid \<times> uuid) set" where
  "undirected t = set (link_list t) \<union> (set (link_list t))\<inverse>"

text \<open>The node the traversal starts from: \<^verbatim>\<open>next(iter(self.nodes))\<close>.\<close>

definition start_node :: "family_tree \<Rightarrow> uuid" where
  "start_node t = fst (hd (nodes t))"

text \<open>The identifiers that can be reached from the start node along the links.\<close>

definition reached :: "family_tree \<Rightarrow> uuid set" where
  "reached t = (undirected t)\<^sup>* `` {start_node t}"

text \<open>Auxiliary notions for the proofs about \<open>dfs\<close> and \<open>adjacency_list\<close>.\<close>

definition closed_under :: "adjacency \<Rightarrow> uuid set \<Rightarrow> bool" where
  "closed_under adj V = (\<forall>u \<in> V. set (adj u) \<subseteq> V)"

definition adj_rel :: "adjacency \<Rightarrow> (uuid \<times> uuid) set" where
  "adj_rel adj = {(u, v). v \<in> set (adj u)}"

definition child_links :: "(uuid \<times> node) list \<Rightarrow> (uuid \<times> uuid) set" where
  "child_links ns = {(k, c). \<exists>m. (k, MarriageNode m) \<in> set ns \<and> c \<in> set (children m)}"

section \<open>The sort order in the words of the specification\<close>

text \<open>
  The composite key of the specification: the gender rank \<open>MALE < FEMALE < OTHER\<close>,
  then the birth year, then the name. It is compared with \<open>sort_key_of\<close>, the key the
  code builds, in \<open>sort_key_of_le_iff\<close>.
\<close>

fun gender_rank :: "gender \<Rightarrow> nat" where
  "gender_rank MALE = 0"
| "gender_rank FEMALE = 1"
| "gender_rank OTHER = 2"

definition composite_key :: "uuid \<times> person \<Rightarrow> nat \<times> int \<times> string" where
  "composite_key item =
     (gender_rank (gender (snd item)), birth_year (snd item), name (snd item))"

section \<open>Example graphs\<close>

text \<open>
  Two marriages made one after the other by \<open>create_marriage\<close>: marriage \<open>10\<close> between
  the spouses \<open>2\<close> and \<open>3\<close>, then marriage \<open>11\<close> between the spouses \<open>4\<close> and \<open>5\<close>.
\<close>

definition two_couples :: family_tree where
  "two_couples =
     snd (create_marriage 11 4 5 None (snd (create_marriage 10 2 3 None empty_tree)))"

definition bob :: person where
  "bob = \<lparr>name = ''Bob'', gender = MALE, birth_year = 1950, death_year = Some 2020\<rparr>"

definition ann :: person where
  "ann = \<lparr>name = ''Ann'', gender = FEMALE, birth_year = 1952, death_year = None\<rparr>"

definition bob_and_ann :: family_tree where
  "bob_and_ann = \<lparr>people = [(2, bob), (3, ann)], marriages = [], edges = []\<rparr>"

definition cy :: person where
  "cy = \<lparr>name = ''Cy'', gender = OTHER, birth_year = 1980, death_year = None\<rparr>"

text \<open>Bob and Ann married, with their child Cy.\<close>

definition family :: family_tree where
  "family =
     \<lparr>people = [(2, bob), (3, ann), (4, cy)],
      marriages = [(10, \<lparr>children = [4]\<rparr>)],
      edges = [\<lparr>source = 2, target = 10\<rparr>, \<lparr>source = 3, target = 10\<rparr>]\<rparr>"



text \<open>
  A second graph that shares the identifiers \<open>3\<close> and \<open>10\<close> and one edge with \<open>family\<close>.
\<close>

definition other_family :: family_tree where
  "other_family =
     \<lparr>people = [(3, ann\<lparr>death_year := Some 2021\<rparr>), (5, cy\<lparr>name := ''Di''\<rparr>)],
      marriages = [(10, \<lparr>children = [4, 5]\<rparr>)],
      edges = [\<lparr>source = 3, target = 10\<rparr>, \<lparr>source = 5, target = 11\<rparr>]\<rparr>"

definition unsorted :: family_tree where
  "unsorted =
     \<lparr>people = [(4, cy), (3, ann), (2, bob), (5, bob\<lparr>name := ''Al''\<rparr>)],
      marriages = [], edges = []\<rparr>"

text \<open>Bob and Ann, unmarried, and an edge from Bob to an identifier that is no node.\<close>

definition dangling_pair :: family_tree where
  "dangling_pair =
     \<lparr>people = [(2, bob), (3, ann)], marriages = [],
      edges = [\<lparr>source = 2, target = 9\<rparr>]\<rparr>"

text \<open>Bob and Ann married, with a child identifier \<open>7\<close> that is no node.\<close>

definition dangling_child :: family_tree where
  "dangling_child =
     \<lparr>people = [(2, bob), (3, ann)], marriages = [(10, \<lparr>children = [7]\<rparr>)],
      edges = [\<lparr>source = 2, target = 10\<rparr>, \<lparr>source = 3, target = 10\<rparr>]\<rparr>"

section \<open>Properties of the mutation engine\<close>

lemma two_couples_eq:
  "two_couples =
     \<lparr>people = [],
      marriages = [(10, \<lparr>children = []\<rparr>), (11, \<lparr>children = []\<rparr>)],
      edges = [\<lparr>source = 2, target = 10\<rparr>, \<lparr>source = 3, target = 10\<rparr>,
               \<lparr>source = 4, target = 11\<rparr>, \<lparr>source = 5, target = 11\<rparr>]\<rparr>"
  by (simp add: two_couples_def create_marriage_def empty_tree_def set_add_def
      or_children_def Let_def)

lemma edge_eq_iff: "(e = \<lparr>source = s, target = k\<rparr>) = (source e = s \<and> target e = k)"
  by (cases e) simp

lemma spouse_marriages_set:
  "set (spouse_marriages s t)
     = {k. has_key k (marriages t) \<and> \<lparr>source = s, target = k\<rparr> \<in> set (edges t)}"
proof (rule set_eqI)
  fix k
  have "\<lparr>source = s, target = k\<rparr> \<in> set (edges t)
          \<longleftrightarrow> (\<exists>e \<in> set (edges t). source e = s \<and> target e = k)"
    by (metis edge_eq_iff)
  then show "k \<in> set (spouse_marriages s t)
          \<longleftrightarrow> k \<in> {k. has_key k (marriages t) \<and> \<lparr>source = s, target = k\<rparr> \<in> set (edges t)}"
    by (auto simp: spouse_marriages_def)
qed

subsection \<open>\<open>update_marriage\<close>\<close>

text \<open>
  C1, at a concrete graph. The spouses \<open>4\<close> and \<open>5\<close> share exactly the marriage \<open>11\<close>.
  \<open>update_marriage 4 5\<close> with the children \<open>[6]\<close> replaces the children of marriage
  \<open>10\<close>, the first marriage of the dictionary, to which neither spouse belongs, returns
  that marriage, and leaves marriage \<open>11\<close> as it was.
\<close>

theorem update_marriage_updates_first_stored:
  "update_marriage 4 5 (Some [6]) two_couples
     = (Some \<lparr>children = [6]\<rparr>,
        two_couples\<lparr>marriages := [(10, \<lparr>children = [6]\<rparr>), (11, \<lparr>children = []\<rparr>)]\<rparr>)"
  by (simp add: two_couples_eq update_marriage_def spouse_marriages_def has_key_def
      or_children_def Let_def)

text \<open>
  In general: when some marriage has edges from both spouses, it is the first
  marriage of the dictionary whose children are replaced and which is returned.
\<close>

lemma update_marriage_common:
  assumes "marriages t = (k0, m0) # rest"
    and "has_key k (marriages t)"
    and "\<lparr>source = s1, target = k\<rparr> \<in> set (edges t)"
    and "\<lparr>source = s2, target = k\<rparr> \<in> set (edges t)"
  shows "update_marriage s1 s2 c t
           = (Some (m0\<lparr>children := or_children c\<rparr>),
              t\<lparr>marriages := (k0, m0\<lparr>children := or_children c\<rparr>) # rest\<rparr>)"
proof -
  have "k \<in> set (filter (\<lambda>marriage_id. marriage_id \<in> set (spouse_marriages s2 t))
                        (spouse_marriages s1 t))"
    using assms(2-4) by (simp add: spouse_marriages_set)
  then obtain x xs where
    "filter (\<lambda>marriage_id. marriage_id \<in> set (spouse_marriages s2 t)) (spouse_marriages s1 t)
       = x # xs"
    by (cases "filter (\<lambda>marriage_id. marriage_id \<in> set (spouse_marriages s2 t))
                 (spouse_marriages s1 t)") auto
  then show ?thesis
    using assms(1) by (simp add: update_marriage_def Let_def)
qed

text \<open>
  C2. When no marriage has edges from both \<open>s1\<close> and \<open>s2\<close>, \<open>update_marriage\<close> returns
  \<^verbatim>\<open>None\<close> and the graph it leaves is the graph it was given. The result type has no
  error: the function raises nothing.
\<close>

theorem update_marriage_no_common:
  assumes "\<not> (\<exists>k. has_key k (marriages t) \<and> \<lparr>source = s1, target = k\<rparr> \<in> set (edges t)
                   \<and> \<lparr>source = s2, target = k\<rparr> \<in> set (edges t))"
  shows "update_marriage s1 s2 c t = (None, t)"
proof -
  have "filter (\<lambda>marriage_id. marriage_id \<in> set (spouse_marriages s2 t))
               (spouse_marriages s1 t) = []"
    using assms by (auto simp: filter_empty_conv spouse_marriages_set)
  then show ?thesis
    by (simp add: update_marriage_def split: list.splits)
qed

theorem update_marriage_no_common_witness:
  "\<not> (\<exists>k. has_key k (marriages two_couples)
          \<and> \<lparr>source = 2, target = k\<rparr> \<in> set (edges two_couples)
          \<and> \<lparr>source = 4, target = k\<rparr> \<in> set (edges two_couples))
   \<and> update_marriage 2 4 (Some [6]) two_couples = (None, two_couples)"
  using update_marriage_no_common [of two_couples 2 4 "Some [6]"]
  by (simp add: two_couples_eq has_key_def)

subsection \<open>\<open>update_person\<close>\<close>

lemma assign_fields_keeps:
  "name (assign_fields g b d p) = name p"
  "g = None \<Longrightarrow> gender (assign_fields g b d p) = gender p"
  "b = None \<or> b = Some 0 \<Longrightarrow> birth_year (assign_fields g b d p) = birth_year p"
  "d = None \<or> d = Some 0 \<Longrightarrow> death_year (assign_fields g b d p) = death_year p"
  "birth_year p \<noteq> 0 \<Longrightarrow> birth_year (assign_fields g b d p) \<noteq> 0"
  "death_year p \<noteq> None \<Longrightarrow> death_year (assign_fields g b d p) \<noteq> None"
  by (auto simp: assign_fields_def or_gender_def or_birth_def or_death_def
      split: option.splits)

text \<open>
  C8. For a person \<open>p\<close> stored under \<open>pid\<close>, \<open>update_person\<close> with that identifier
  succeeds and stores the person it returns under \<open>pid\<close>; a gender \<^verbatim>\<open>None\<close>, a birth
  year \<^verbatim>\<open>None\<close> or \<open>0\<close> and a death year \<^verbatim>\<open>None\<close> (or \<open>0\<close>) leave the field as it was. So
  a birth year that is not \<open>0\<close> never becomes \<open>0\<close> and a death year that is present
  never becomes absent, whatever the arguments.
\<close>

theorem update_person_falsy_keeps:
  assumes "map_of (people t) pid = Some p"
  shows "\<exists>p' t'. update_person n g b d (Some pid) t = Inr (p', t')
           \<and> map_of (people t') pid = Some p'
           \<and> (g = None \<longrightarrow> gender p' = gender p)
           \<and> (b = None \<or> b = Some 0 \<longrightarrow> birth_year p' = birth_year p)
           \<and> (d = None \<or> d = Some 0 \<longrightarrow> death_year p' = death_year p)
           \<and> (birth_year p \<noteq> 0 \<longrightarrow> birth_year p' \<noteq> 0)
           \<and> (death_year p \<noteq> None \<longrightarrow> death_year p' \<noteq> None)"
proof -
  let ?p = "assign_fields g b d p"
  let ?t = "t\<lparr>people := AList.update pid ?p (people t)\<rparr>"
  have "update_person n g b d (Some pid) t = Inr (?p, ?t)"
    using assms by (simp add: update_person_def Let_def)
  moreover have "map_of (people ?t) pid = Some ?p"
    by (simp add: AList.update_conv')
  ultimately show ?thesis
    using assign_fields_keeps [where g=g and b=b and d=d and p=p] by blast
qed

theorem update_person_falsy_keeps_witness:
  "map_of (people bob_and_ann) 2 = Some bob
   \<and> (\<exists>p' t'. update_person ''Bob'' None (Some 0) None (Some 2) bob_and_ann = Inr (p', t')
         \<and> map_of (people t') 2 = Some p'
         \<and> gender p' = MALE \<and> birth_year p' = 1950 \<and> death_year p' = Some 2020)"
proof -
  have stored: "map_of (people bob_and_ann) 2 = Some bob"
    by (simp add: bob_and_ann_def)
  from update_person_falsy_keeps [OF stored, of "''Bob''" None "Some 0" None]
  obtain p' t' where "update_person ''Bob'' None (Some 0) None (Some 2) bob_and_ann = Inr (p', t')"
    and "map_of (people t') 2 = Some p'" and "gender p' = gender bob"
    and "birth_year p' = birth_year bob" and "death_year p' = death_year bob"
    by auto
  then show ?thesis
    using stored by (auto simp: bob_def)
qed



subsection \<open>\<open>create_person\<close>\<close>

lemma find_update_new:
  assumes "P p" and "find P (map snd xs) = None"
  shows "find P (map snd (AList.update k p xs)) = Some p"
  using assms by (induction xs) (auto split: if_splits)

lemma length_update_fresh:
  "k \<notin> fst ` set xs \<Longrightarrow> length (AList.update k v xs) = Suc (length xs)"
  by (induction xs) auto

lemma person_same_fields:
  fixes p q :: person
  assumes "name p = name q" "gender p = gender q" "birth_year p = birth_year q"
    "death_year p = death_year q"
  shows "p = q"
  using assms by (cases p, cases q) simp

text \<open>
  C4. \<open>same\<close> is the test of \<open>create_person\<close> on the four fields, \<open>k\<close> and \<open>k'\<close> are
  the identifiers \<^verbatim>\<open>uuid4()\<close> returns in a first and a second call.
  \<^item> When a stored person \<open>p\<close> has the four given fields, the call returns \<open>p\<close> and the
    graph is unchanged.
  \<^item> A second call with the same four arguments returns the person the first call
    returned and leaves the graph as the first call left it.
  \<^item> When no stored person has the four given fields and \<open>k\<close> is not yet a key, the
    people dictionary has exactly one entry more after the first call, and still
    exactly one more after the second.
\<close>

theorem create_person_idempotent:
  fixes n g b d
  defines "same \<equiv> (\<lambda>p. name p = n \<and> gender p = g \<and> birth_year p = b \<and> death_year p = d)"
  shows "(\<forall>j p. (j, p) \<in> set (people t) \<and> same p \<longrightarrow> create_person k n g b d t = (p, t))
       \<and> create_person k' n g b d (snd (create_person k n g b d t))
           = (fst (create_person k n g b d t), snd (create_person k n g b d t))
       \<and> ((\<forall>j p. (j, p) \<in> set (people t) \<longrightarrow> \<not> same p) \<and> \<not> has_key k (people t) \<longrightarrow>
            length (people (snd (create_person k n g b d t))) = length (people t) + 1
          \<and> length (people (snd (create_person k' n g b d (snd (create_person k n g b d t)))))
              = length (people t) + 1)"
proof -
  let ?p = "\<lparr>name = n, gender = g, birth_year = b, death_year = d\<rparr>"
  have same_new: "same ?p" by (simp add: same_def)
  have hit: "create_person j n g b d u = (p, u)"
    if "find same (map snd (people u)) = Some p" for j u p
    using that by (simp add: create_person_def same_def)
  have miss: "create_person j n g b d u = (?p, u\<lparr>people := AList.update j ?p (people u)\<rparr>)"
    if "find same (map snd (people u)) = None" for j u
    using that by (simp add: create_person_def same_def Let_def)
  have found: "find same (map snd (people t)) = Some p" if "(j, p) \<in> set (people t)" "same p" for j p
  proof -
    from that(1) have "p \<in> set (map snd (people t))"
      by force
    with that(2) have "find same (map snd (people t)) \<noteq> None"
      unfolding find_None_iff by blast
    then obtain q where q: "find same (map snd (people t)) = Some q" by blast
    then have "same q" by (auto simp: find_Some_iff)
    with that(2) have "q = p"
      by (intro person_same_fields) (simp_all add: same_def)
    with q show ?thesis by simp
  qed
  have absent: "find same (map snd (people t)) = None"
    if "\<forall>j p. (j, p) \<in> set (people t) \<longrightarrow> \<not> same p"
    using that by (auto simp: find_None_iff)
  have twice: "create_person k' n g b d (snd (create_person k n g b d t))
           = (fst (create_person k n g b d t), snd (create_person k n g b d t))"
  proof (cases "find same (map snd (people t))")
    case None
    then show ?thesis
      using hit [of "t\<lparr>people := AList.update k ?p (people t)\<rparr>" ?p k']
        find_update_new [OF same_new None, of k]
      by (simp add: miss)
  next
    case (Some p)
    then show ?thesis by (simp add: hit)
  qed
  have first: "\<forall>j p. (j, p) \<in> set (people t) \<and> same p \<longrightarrow> create_person k n g b d t = (p, t)"
    using found hit by blast
  have one_more: "length (people (snd (create_person k n g b d t))) = length (people t) + 1"
    if "\<forall>j p. (j, p) \<in> set (people t) \<longrightarrow> \<not> same p" "\<not> has_key k (people t)"
    using that absent by (simp add: miss length_update_fresh has_key_def)
  show ?thesis
    using first twice one_more by simp
qed

theorem create_person_idempotent_witness:
  "create_person 7 ''Bob'' MALE 1950 (Some 2020) bob_and_ann = (bob, bob_and_ann)
   \<and> \<not> has_key 4 (people bob_and_ann)
   \<and> create_person 4 ''Cy'' OTHER 1980 None bob_and_ann
       = (cy, bob_and_ann\<lparr>people := [(2, bob), (3, ann), (4, cy)]\<rparr>)
   \<and> create_person 7 ''Cy'' OTHER 1980 None
        (snd (create_person 4 ''Cy'' OTHER 1980 None bob_and_ann))
       = (cy, bob_and_ann\<lparr>people := [(2, bob), (3, ann), (4, cy)]\<rparr>)
   \<and> length (people (snd (create_person 7 ''Cy'' OTHER 1980 None
        (snd (create_person 4 ''Cy'' OTHER 1980 None bob_and_ann))))) = length (people bob_and_ann) + 1"
  using create_person_idempotent [of bob_and_ann "''Bob''" MALE 1950 "Some 2020" 7 7]
    create_person_idempotent [of bob_and_ann "''Cy''" OTHER 1980 None 4 7]
  by (simp add: bob_and_ann_def bob_def ann_def cy_def has_key_def create_person_def Let_def)

subsection \<open>\<open>delete_node\<close>\<close>










section \<open>Properties of the merge engine\<close>

lemma fold_update_keys_distinct:
  "distinct (map fst xs) \<Longrightarrow> distinct (map fst (fold (\<lambda>(k, v). AList.update k v) ys xs))"
  by (induction ys arbitrary: xs) (auto simp: AList.distinct_update)

lemma fold_update_map_of:
  "distinct (map fst ys) \<Longrightarrow>
   map_of (fold (\<lambda>(k, v). AList.update k v) ys xs) j
     = (case map_of ys j of Some v \<Rightarrow> Some v | None \<Rightarrow> map_of xs j)"
proof (induction ys arbitrary: xs)
  case Nil
  then show ?case by simp
next
  case (Cons y ys)
  obtain k v where y: "y = (k, v)" by (cases y)
  from Cons.prems y have "map_of ys k = None" and "distinct (map fst ys)"
    by (auto simp: map_of_eq_None_iff)
  then show ?case
    using Cons.IH [of "AList.update k v xs"] y
    by (auto simp: AList.update_conv' split: option.splits)
qed

lemma set_set_update: "set (set_update s t) = set s \<union> set t"
  unfolding set_update_def by (induction t arbitrary: s) (auto simp: set_add_def)

lemma distinct_set_update: "distinct s \<Longrightarrow> distinct (set_update s t)"
  unfolding set_update_def by (induction t arbitrary: s) (auto simp: set_add_def)

text \<open>
  C5. For two graphs whose dictionaries have distinct keys, after \<open>merge g h\<close> an
  identifier that \<open>h\<close> stores maps to the entity \<open>h\<close> stores under it, any other
  identifier maps to what \<open>g\<close> stored (people and marriages alike), the edges are the
  union of the two edge sets, and the merged edge set has no element twice.
\<close>

theorem merge_last_write_wins:
  assumes "wf_tree g" and "wf_tree h"
  shows "(\<forall>k. map_of (people (merge g h)) k
               = (case map_of (people h) k of Some p \<Rightarrow> Some p | None \<Rightarrow> map_of (people g) k))
       \<and> (\<forall>k. map_of (marriages (merge g h)) k
               = (case map_of (marriages h) k of Some m \<Rightarrow> Some m
                  | None \<Rightarrow> map_of (marriages g) k))
       \<and> set (edges (merge g h)) = set (edges g) \<union> set (edges h)
       \<and> wf_tree (merge g h)"
  using assms
  by (simp add: merge_def wf_tree_def fold_update_map_of fold_update_keys_distinct
      set_set_update distinct_set_update)

theorem merge_last_write_wins_witness:
  "wf_tree family \<and> wf_tree other_family
   \<and> merge family other_family
       = \<lparr>people = [(2, bob), (3, ann\<lparr>death_year := Some 2021\<rparr>), (4, cy),
                    (5, cy\<lparr>name := ''Di''\<rparr>)],
          marriages = [(10, \<lparr>children = [4, 5]\<rparr>)],
          edges = [\<lparr>source = 2, target = 10\<rparr>, \<lparr>source = 3, target = 10\<rparr>,
                   \<lparr>source = 5, target = 11\<rparr>]\<rparr>
   \<and> map_of (people (merge family other_family)) 3 = map_of (people other_family) 3
   \<and> map_of (people (merge family other_family)) 2 = map_of (people family) 2"
  using merge_last_write_wins [of family other_family]
  by (simp add: family_def other_family_def wf_tree_def merge_def set_update_def set_add_def
      bob_def ann_def cy_def)

section \<open>Properties of the ordering engine\<close>

lemma sort_key_of_le_iff:
  "sort_key_of x \<le> sort_key_of y \<longleftrightarrow> composite_key x \<le> composite_key y"
  by (cases "gender (snd x)"; cases "gender (snd y)")
     (auto simp: sort_key_of_def composite_key_def)

lemma update_append_fresh: "k \<notin> fst ` set acc \<Longrightarrow> AList.update k v acc = acc @ [(k, v)]"
  by (induction acc) auto

lemma fold_update_append:
  "distinct (map fst xs) \<Longrightarrow> fst ` set xs \<inter> fst ` set acc = {} \<Longrightarrow>
   fold (\<lambda>(k, v). AList.update k v) xs acc = acc @ xs"
proof (induction xs arbitrary: acc)
  case Nil
  then show ?case by simp
next
  case (Cons x xs)
  obtain k v where x: "x = (k, v)" by (cases x)
  have "fold (\<lambda>(k, v). AList.update k v) xs (acc @ [(k, v)]) = (acc @ [(k, v)]) @ xs"
    using Cons.prems x by (intro Cons.IH) auto
  then show ?case
    using Cons.prems x by (simp add: update_append_fresh)
qed

text \<open>Building a dictionary from items whose keys are distinct keeps the items in order.\<close>

lemma dict_of_distinct: "distinct (map fst xs) \<Longrightarrow> dict_of xs = xs"
  using fold_update_append [of xs "[]"] by (simp add: dict_of_def)

lemma distinct_keys_sort: "distinct (map fst xs) \<Longrightarrow> distinct (map fst (sort_key f xs))"
  by (metis distinct_map distinct_sort set_sort)

lemma people_sort_people:
  "distinct (map fst (people t)) \<Longrightarrow> people (sort_people t) = sort_key sort_key_of (people t)"
  by (simp add: sort_people_def dict_of_distinct distinct_keys_sort)

text \<open>
  C6. For a people dictionary (keys distinct), after \<open>sort_people\<close> no entry has a
  composite key strictly below that of the entry before it; sorting a second time
  changes nothing; the entries are the same entries, and marriages and edges are not
  touched.
\<close>

theorem sort_people_sorted:
  assumes "distinct (map fst (people t))"
  shows "(\<forall>i. Suc i < length (people (sort_people t)) \<longrightarrow>
             \<not> composite_key (people (sort_people t) ! Suc i)
                 < composite_key (people (sort_people t) ! i))
       \<and> sort_people (sort_people t) = sort_people t
       \<and> set (people (sort_people t)) = set (people t)
       \<and> distinct (map fst (people (sort_people t)))
       \<and> marriages (sort_people t) = marriages t \<and> edges (sort_people t) = edges t"
proof -
  let ?s = "sort_key sort_key_of (people t)"
  have p: "people (sort_people t) = ?s"
    using assms by (rule people_sort_people)
  have sorted: "sorted (map sort_key_of ?s)"
    by (rule sorted_sort_key)
  have adj: "\<not> composite_key (?s ! Suc i) < composite_key (?s ! i)" if "Suc i < length ?s" for i
  proof -
    from sorted that have "sort_key_of (?s ! i) \<le> sort_key_of (?s ! Suc i)"
      by (simp add: sorted_iff_nth_Suc)
    then show ?thesis by (simp add: sort_key_of_le_iff not_less)
  qed
  have d: "distinct (map fst ?s)"
    using assms by (rule distinct_keys_sort)
  have "sort_key sort_key_of ?s = ?s"
    using sorted by (rule sort_key_id_if_sorted)
  then have idem: "sort_people (sort_people t) = sort_people t"
    using d by (simp add: sort_people_def dict_of_distinct)
  show ?thesis
    using adj idem d by (simp add: p) (simp add: sort_people_def)
qed

theorem sort_people_sorted_witness:
  "distinct (map fst (people unsorted))
   \<and> people (sort_people unsorted) = [(5, bob\<lparr>name := ''Al''\<rparr>), (2, bob), (3, ann), (4, cy)]
   \<and> sort_people (sort_people unsorted) = sort_people unsorted"
  using sort_people_sorted [of unsorted]
  by (simp add: unsorted_def sort_people_def dict_of_def sort_key_of_def bob_def ann_def cy_def)

section \<open>Properties of the graph store\<close>

subsection \<open>The traversal\<close>

lemma card_Diff_insert_le:
  assumes "finite V" "n \<in> V" "n \<notin> vis" "card (V - vis) \<le> Suc d"
  shows "card (V - insert n vis) \<le> d"
proof -
  have "V - insert n vis = (V - vis) - {n}" by auto
  moreover have "n \<in> V - vis" using assms by simp
  moreover have "finite (V - vis)" using assms by simp
  ultimately show ?thesis using assms(4) by (simp add: card_Diff_singleton)
qed

lemma card_Diff_mono:
  assumes "finite V" "vis \<subseteq> vis'" "card (V - vis) \<le> d"
  shows "card (V - vis') \<le> d"
proof -
  have "V - vis' \<subseteq> V - vis" using assms(2) by auto
  then have "card (V - vis') \<le> card (V - vis)"
    using assms(1) by (intro card_mono) auto
  then show ?thesis using assms(3) by simp
qed

lemma dfs_visits:
  fixes adj :: adjacency
  shows "\<And>V. finite V \<Longrightarrow> closed_under adj V \<Longrightarrow> node_id \<in> V \<Longrightarrow> node_id \<notin> visited \<Longrightarrow>
          card (V - visited) \<le> d \<Longrightarrow>
          \<exists>vis'. dfs d adj node_id visited = Inr vis' \<and> insert node_id visited \<subseteq> vis'
                \<and> vis' \<subseteq> visited \<union> V \<and> (\<forall>u \<in> vis' - visited. set (adj u) \<subseteq> vis')"
    and "\<And>V. finite V \<Longrightarrow> closed_under adj V \<Longrightarrow> set ns \<subseteq> V \<Longrightarrow>
          card (V - visited') \<le> d' \<Longrightarrow>
          \<exists>vis'. dfs_loop d' adj ns visited' = Inr vis' \<and> visited' \<union> set ns \<subseteq> vis'
                \<and> vis' \<subseteq> visited' \<union> V \<and> (\<forall>u \<in> vis' - visited'. set (adj u) \<subseteq> vis')"
proof (induction d adj node_id visited and d' adj ns visited' rule: dfs_dfs_loop.induct)
  case (1 adj node_id visited)
  then have "node_id \<in> V - visited" "finite (V - visited)" by auto
  with 1 show ?case by (auto simp: card_eq_0_iff)
next
  case (2 d adj node_id visited)
  have sub: "set (adj node_id) \<subseteq> V"
    using "2.prems" by (auto simp: closed_under_def)
  have "card (V - insert node_id visited) \<le> d"
    using "2.prems" by (intro card_Diff_insert_le) auto
  from "2.IH" [OF "2.prems"(1,2) sub this]
  obtain vis' where r: "dfs_loop d adj (adj node_id) (insert node_id visited) = Inr vis'"
    and a: "insert node_id visited \<union> set (adj node_id) \<subseteq> vis'"
    and b: "vis' \<subseteq> insert node_id visited \<union> V"
    and c: "\<forall>u \<in> vis' - insert node_id visited. set (adj u) \<subseteq> vis'"
    by blast
  have "\<forall>u \<in> vis' - visited. set (adj u) \<subseteq> vis'"
    using a c by auto
  then show ?case
    using r a b "2.prems"(3) by auto
next
  case (3 d adj visited)
  then show ?case by simp
next
  case (4 d adj neighbor rest visited)
  show ?case
  proof (cases "neighbor \<in> visited")
    case True
    with "4.IH"(3) [OF _ "4.prems"(1,2) _ "4.prems"(4)] "4.prems"(3)
    show ?thesis by auto
  next
    case False
    have nV: "neighbor \<in> V" using "4.prems"(3) by simp
    from "4.IH"(1) [OF False "4.prems"(1,2) nV False "4.prems"(4)]
    obtain v1 where r1: "dfs d adj neighbor visited = Inr v1"
      and a1: "insert neighbor visited \<subseteq> v1" and b1: "v1 \<subseteq> visited \<union> V"
      and c1: "\<forall>u \<in> v1 - visited. set (adj u) \<subseteq> v1"
      by blast
    have "card (V - v1) \<le> d"
      using "4.prems"(1) _ "4.prems"(4) by (rule card_Diff_mono) (use a1 in auto)
    from "4.IH"(2) [OF False r1 "4.prems"(1,2) _ this] "4.prems"(3)
    obtain v2 where r2: "dfs_loop d adj rest v1 = Inr v2"
      and a2: "v1 \<union> set rest \<subseteq> v2" and b2: "v2 \<subseteq> v1 \<union> V"
      and c2: "\<forall>u \<in> v2 - v1. set (adj u) \<subseteq> v2"
      by auto
    have "\<forall>u \<in> v2 - visited. set (adj u) \<subseteq> v2"
      using c1 c2 a2 by blast
    moreover have "dfs_loop d adj (neighbor # rest) visited = Inr v2"
      using False r1 r2 by simp
    ultimately show ?thesis
      using a1 a2 b1 b2 by auto
  qed
qed

lemma dfs_reachable:
  assumes fin: "finite ((adj_rel adj)\<^sup>* `` {s})" and lim: "card ((adj_rel adj)\<^sup>* `` {s}) \<le> limit"
  shows "dfs limit adj s {} = Inr ((adj_rel adj)\<^sup>* `` {s})"
proof -
  let ?R = "(adj_rel adj)\<^sup>* `` {s}"
  have cl: "closed_under adj ?R"
    by (auto simp: closed_under_def adj_rel_def intro: rtrancl_into_rtrancl)
  from dfs_visits(1) [OF fin cl, of s "{}" limit] lim
  obtain vis where r: "dfs limit adj s {} = Inr vis" and a: "s \<in> vis" and b: "vis \<subseteq> ?R"
    and c: "\<forall>u \<in> vis. set (adj u) \<subseteq> vis"
    by auto
  have "v \<in> vis" if "(s, v) \<in> (adj_rel adj)\<^sup>*" for v
    using that by (induction rule: rtrancl_induct) (use a c in \<open>auto simp: adj_rel_def\<close>)
  with b have "vis = ?R" by auto
  with r show ?thesis by simp
qed

subsection \<open>The node dictionary\<close>

lemma fold_update_keys:
  "fst ` set (fold (\<lambda>(k, v). AList.update k v) xs acc) = fst ` set acc \<union> fst ` set xs"
proof (induction xs arbitrary: acc)
  case Nil
  then show ?case by simp
next
  case (Cons x xs)
  obtain k v where x: "x = (k, v)" by (cases x)
  show ?case
    unfolding x by (simp add: Cons.IH AList.dom_update)
qed

lemma distinct_nodes: "distinct (map fst (nodes t))"
  unfolding nodes_def dict_of_def by (rule fold_update_keys_distinct) simp

lemma keys_nodes: "fst ` set (nodes t) = fst ` set (people t) \<union> fst ` set (marriages t)"
  unfolding nodes_def dict_of_def fold_update_keys by force

lemma length_nodes: "length (nodes t) = card (fst ` set (people t) \<union> fst ` set (marriages t))"
proof -
  have "length (nodes t) = length (map fst (nodes t))" by simp
  also have "\<dots> = card (set (map fst (nodes t)))"
    using distinct_nodes by (simp only: distinct_card)
  finally show ?thesis by (simp add: keys_nodes)
qed

lemma map_of_wrap_marriages:
  "map_of (map (\<lambda>(k, m). (k, MarriageNode m)) ms) k = map_option MarriageNode (map_of ms k)"
  by (induction ms) auto

lemma map_of_wrap_people:
  "map_of (map (\<lambda>(k, p). (k, PersonNode p)) ps) k = map_option PersonNode (map_of ps k)"
  by (induction ps) auto

lemma keys_wrap: "map fst (map (\<lambda>(k, m). (k, f m)) ms) = map fst ms"
  by (induction ms) auto

lemma nodes_wf:
  assumes "wf_tree t"
  shows "nodes t = fold (\<lambda>(k, v). AList.update k v)
                     (map (\<lambda>(k, m). (k, MarriageNode m)) (marriages t))
                     (map (\<lambda>(k, p). (k, PersonNode p)) (people t))"
proof -
  have "dict_of (map (\<lambda>(k, p). (k, PersonNode p)) (people t))
          = map (\<lambda>(k, p). (k, PersonNode p)) (people t)"
  proof (rule dict_of_distinct)
    show "distinct (map fst (map (\<lambda>(k, p). (k, PersonNode p)) (people t)))"
      unfolding keys_wrap using assms by (simp add: wf_tree_def)
  qed
  then show ?thesis
    by (simp add: nodes_def dict_of_def)
qed

lemma map_of_nodes:
  assumes "wf_tree t"
  shows "map_of (nodes t) k =
     (case map_of (marriages t) k of Some m \<Rightarrow> Some (MarriageNode m)
      | None \<Rightarrow> map_option PersonNode (map_of (people t) k))"
proof -
  have "distinct (map fst (map (\<lambda>(k, m). (k, MarriageNode m)) (marriages t)))"
    unfolding keys_wrap using assms by (simp add: wf_tree_def)
  then show ?thesis
    unfolding nodes_wf [OF assms]
    by (simp add: fold_update_map_of map_of_wrap_marriages map_of_wrap_people
        split: option.splits)
qed

lemma marriage_nodes:
  assumes "wf_tree t"
  shows "(k, MarriageNode m) \<in> set (nodes t) \<longleftrightarrow> (k, m) \<in> set (marriages t)"
proof -
  have "(k, MarriageNode m) \<in> set (nodes t) \<longleftrightarrow> map_of (nodes t) k = Some (MarriageNode m)"
    using distinct_nodes by simp
  also have "\<dots> \<longleftrightarrow> map_of (marriages t) k = Some m"
    by (auto simp: map_of_nodes [OF assms] split: option.splits)
  also have "\<dots> \<longleftrightarrow> (k, m) \<in> set (marriages t)"
    using assms by (simp add: wf_tree_def)
  finally show ?thesis .
qed

subsection \<open>The adjacency list\<close>

lemma adj_rel_empty: "adj_rel (\<lambda>_. []) = {}"
  by (simp add: adj_rel_def)

lemma adj_rel_adj_add: "adj_rel (adj_add a b adj) = insert (a, b) (adj_rel adj)"
  by (auto simp: adj_rel_def adj_add_def set_add_def split: if_splits)

lemma adj_rel_fold_adj_edge:
  "adj_rel (fold adj_edge es adj)
     = adj_rel adj \<union> (\<lambda>e. (source e, target e)) ` set es \<union> (\<lambda>e. (target e, source e)) ` set es"
  by (induction es arbitrary: adj) (auto simp: adj_edge_def adj_rel_adj_add)

lemma adj_rel_fold_adj_child:
  "adj_rel (fold (adj_child k) cs adj) = adj_rel adj \<union> Pair k ` set cs \<union> (\<lambda>c. (c, k)) ` set cs"
  by (induction cs arbitrary: adj) (auto simp: adj_child_def adj_rel_adj_add)

lemma adj_rel_adj_node:
  "adj_rel (adj_node kn adj) = adj_rel adj \<union> child_links [kn] \<union> (child_links [kn])\<inverse>"
  by (cases kn; cases "snd kn")
     (auto simp: adj_node_def adj_rel_fold_adj_child child_links_def)

lemma child_links_Cons: "child_links (kn # ns) = child_links [kn] \<union> child_links ns"
  by (auto simp: child_links_def)

lemma adj_rel_fold_adj_node:
  "adj_rel (fold adj_node ns adj) = adj_rel adj \<union> child_links ns \<union> (child_links ns)\<inverse>"
proof (induction ns arbitrary: adj)
  case Nil
  then show ?case by (simp add: child_links_def)
next
  case (Cons kn ns)
  show ?case
    by (simp add: Cons.IH adj_rel_adj_node child_links_Cons [of kn ns]) blast
qed

lemma set_link_list:
  "set (link_list t) = (\<lambda>e. (source e, target e)) ` set (edges t)
                        \<union> {(k, c). \<exists>m. (k, m) \<in> set (marriages t) \<and> c \<in> set (children m)}"
  by (auto simp: link_list_def)

lemma adj_rel_adjacency_list:
  assumes "wf_tree t"
  shows "adj_rel (adjacency_list t) = undirected t"
proof -
  have "child_links (nodes t) = {(k, c). \<exists>m. (k, m) \<in> set (marriages t) \<and> c \<in> set (children m)}"
    by (simp add: child_links_def marriage_nodes [OF assms])
  then show ?thesis
    by (auto simp: adjacency_list_def adj_rel_fold_adj_node adj_rel_fold_adj_edge adj_rel_empty
        undirected_def set_link_list)
qed

subsection \<open>\<open>connected\<close> counts the reachable identifiers\<close>

lemma reach_subset: "R\<^sup>* `` {s} \<subseteq> insert s (Range R)"
  by (auto elim: rtranclE)

lemma finite_reached: "finite (reached t)"
proof -
  have "finite (undirected t)" by (simp add: undirected_def)
  then have "finite (insert (start_node t) (Range (undirected t)))"
    by (simp add: finite_Range)
  then show ?thesis
    unfolding reached_def using reach_subset by (rule rev_finite_subset)
qed

lemma connected_reached:
  assumes "wf_tree t" and "nodes t \<noteq> []" and "card (reached t) \<le> limit"
  shows "connected limit t = Inr (card (reached t) = length (nodes t))"
proof -
  have r: "reached t = (adj_rel (adjacency_list t))\<^sup>* `` {start_node t}"
    by (simp add: reached_def adj_rel_adjacency_list [OF assms(1)])
  have "dfs limit (adjacency_list t) (start_node t) {} = Inr (reached t)"
    unfolding r using finite_reached [of t] assms(3)
    by (intro dfs_reachable) (simp_all add: r)
  then show ?thesis
    using assms(2) by (simp add: connected_def start_node_def)
qed

text \<open>
  The model lists the edge set in one order; the result of \<open>connected\<close> is the same
  for every order, since it depends on the set of edges only.
\<close>

lemma connected_edge_order:
  assumes "wf_tree t" and "wf_tree t'"
    and "people t' = people t" and "marriages t' = marriages t"
    and "set (edges t') = set (edges t)"
    and "card (reached t) \<le> limit"
  shows "connected limit t' = connected limit t"
proof -
  have n: "nodes t' = nodes t"
    using assms(3,4) by (simp add: nodes_def)
  have "undirected t' = undirected t"
    using assms(4,5) by (simp add: undirected_def set_link_list)
  then have r: "reached t' = reached t"
    by (simp add: reached_def start_node_def n)
  show ?thesis
  proof (cases "nodes t = []")
    case True
    then show ?thesis by (simp add: connected_def n)
  next
    case False
    then show ?thesis
      using connected_reached [OF assms(1) False assms(6)]
        connected_reached [OF assms(2), of limit] assms(6)
      by (simp add: n r)
  qed
qed

text \<open>A numeral as recursion limit.\<close>

lemma dfs_numeral:
  "dfs (numeral k) adj node_id visited
     = dfs_loop (pred_numeral k) adj (adj node_id) (insert node_id visited)"
  by (simp add: numeral_eq_Suc)

subsection \<open>Small graphs\<close>

text \<open>
  C7. With room for three nested calls of \<^verbatim>\<open>dfs\<close>: \<open>connected\<close> is true on the
  empty graph; true on a graph of one person; false on a graph of two people \<open>a\<close> and
  \<open>b\<close> without edges and marriages; and true after \<open>create_marriage\<close> has married \<open>a\<close>
  and \<open>b\<close> in that graph under a new identifier \<open>m\<close>, without children or with children
  among \<open>a\<close> and \<open>b\<close>.
\<close>

theorem connected_small_graphs:
  fixes a b m :: uuid
  assumes "a \<noteq> b" and "m \<noteq> a" and "m \<noteq> b" and "3 \<le> limit"
    and "set (or_children c) \<subseteq> {a, b}"
  shows "connected limit empty_tree = Inr True
       \<and> connected limit \<lparr>people = [(a, p)], marriages = [], edges = []\<rparr> = Inr True
       \<and> connected limit \<lparr>people = [(a, p), (b, q)], marriages = [], edges = []\<rparr> = Inr False
       \<and> connected limit
           (snd (create_marriage m a b c \<lparr>people = [(a, p), (b, q)], marriages = [], edges = []\<rparr>))
         = Inr True"
proof -
  obtain l where l: "limit = Suc l"
    using assms(4) by (cases limit) auto
  have none: "connected limit empty_tree = Inr True"
    by (simp add: connected_def nodes_def dict_of_def empty_tree_def)
  have one: "connected limit \<lparr>people = [(a, p)], marriages = [], edges = []\<rparr> = Inr True"
    by (simp add: l connected_def nodes_def dict_of_def adjacency_list_def adj_node_def)
  have two: "connected limit \<lparr>people = [(a, p), (b, q)], marriages = [], edges = []\<rparr> = Inr False"
    using assms(1)
    by (simp add: l connected_def nodes_def dict_of_def adjacency_list_def adj_node_def)
  let ?t = "\<lparr>people = [(a, p), (b, q)], marriages = [(m, \<lparr>children = or_children c\<rparr>)],
             edges = [\<lparr>source = a, target = m\<rparr>, \<lparr>source = b, target = m\<rparr>]\<rparr>"
  have t: "snd (create_marriage m a b c \<lparr>people = [(a, p), (b, q)], marriages = [], edges = []\<rparr>) = ?t"
    using assms(1) by (simp add: create_marriage_def Let_def set_add_def)
  have wf: "wf_tree ?t"
    using assms(1) by (simp add: wf_tree_def)
  have n: "nodes ?t = [(a, PersonNode p), (b, PersonNode q), (m, MarriageNode \<lparr>children = or_children c\<rparr>)]"
    using assms(1,2,3) by (simp add: nodes_def dict_of_def)
  have u: "undirected ?t = {(a, m), (b, m), (m, a), (m, b)} \<union> Pair m ` set (or_children c)
                           \<union> (\<lambda>x. (x, m)) ` set (or_children c)"
    by (auto simp: undirected_def link_list_def)
  have s: "start_node ?t = a"
    by (simp add: start_node_def n)
  have "reached ?t \<subseteq> {a, b, m}"
    unfolding reached_def s using reach_subset [of "undirected ?t" a] assms(5)
    by (auto simp: u)
  moreover have "(a, m) \<in> (undirected ?t)\<^sup>*" "(a, b) \<in> (undirected ?t)\<^sup>*"
    unfolding u by (auto intro: rtrancl_trans [of a m _ b])
  ultimately have r: "reached ?t = {a, b, m}"
    by (auto simp: reached_def s)
  have "connected limit ?t = Inr (card (reached ?t) = length (nodes ?t))"
    using wf _ _ by (rule connected_reached) (use assms in \<open>simp_all add: n r\<close>)
  then have three: "connected limit ?t = Inr True"
    using assms by (simp add: r n)
  show ?thesis
    using none one two three t by simp
qed

theorem connected_small_graphs_witness:
  "connected 1000 empty_tree = Inr True
   \<and> connected 1000 \<lparr>people = [(2, bob)], marriages = [], edges = []\<rparr> = Inr True
   \<and> connected 1000 bob_and_ann = Inr False
   \<and> connected 1000 (snd (create_marriage 10 2 3 None bob_and_ann)) = Inr True"
  using connected_small_graphs [of 2 3 10 1000 None bob ann]
  by (simp add: bob_and_ann_def or_children_def)

subsection \<open>Identifiers that are no nodes\<close>

text \<open>
  C10, at a concrete graph. \<open>dangling_pair\<close> has the nodes \<open>2\<close> and \<open>3\<close>; the
  identifier \<open>9\<close> is no node and is reached from the start node \<open>2\<close> by the edge from
  \<open>2\<close> to \<open>9\<close>. The visited set is \<open>{2, 9}\<close>, as large as the node dictionary, and
  \<open>connected\<close> is true although the node \<open>3\<close> is not reached.
\<close>

theorem connected_true_with_dangling:
  "nodes dangling_pair \<noteq> [] \<and> \<not> has_key 9 (nodes dangling_pair)
   \<and> 9 \<in> reached dangling_pair
   \<and> connected 1000 dangling_pair = Inr True"
proof -
  have "(2, 9) \<in> undirected dangling_pair"
    by (simp add: dangling_pair_def undirected_def link_list_def)
  moreover have "start_node dangling_pair = 2"
    by (simp add: dangling_pair_def start_node_def nodes_def dict_of_def)
  ultimately have "9 \<in> reached dangling_pair"
    by (auto simp: reached_def)
  moreover have "connected 1000 dangling_pair = Inr True"
    by (simp add: dangling_pair_def connected_def nodes_def dict_of_def adjacency_list_def
        adj_node_def adj_edge_def adj_add_def set_add_def dfs_numeral)
  moreover have "nodes dangling_pair \<noteq> []" "\<not> has_key 9 (nodes dangling_pair)"
    by (simp_all add: dangling_pair_def nodes_def dict_of_def has_key_def)
  ultimately show ?thesis by simp
qed

text \<open>The same through the operations alone: Bob is married to an identifier that is no node.\<close>

lemma connected_true_after_create_marriage:
  "connected 1000 (snd (create_marriage 10 2 9 None bob_and_ann)) = Inr True"
  by (simp add: bob_and_ann_def create_marriage_def or_children_def Let_def connected_def
      nodes_def dict_of_def adjacency_list_def adj_node_def adj_edge_def adj_add_def
      set_add_def dfs_numeral)

text \<open>
  In a graph with nodes, when an identifier \<open>x\<close> that is no node is reached from the
  start node and every node is reached as well, \<open>connected\<close> is false, provided the
  recursion limit leaves room for as many nested calls as there are reached
  identifiers.
\<close>

lemma connected_dangling_false:
  assumes "wf_tree t" and "nodes t \<noteq> []"
    and "\<not> has_key x (nodes t)" and "x \<in> reached t"
    and "fst ` set (nodes t) \<subseteq> reached t"
    and "card (reached t) \<le> limit"
  shows "connected limit t = Inr False"
proof -
  have "card (fst ` set (nodes t)) = length (nodes t)"
    using distinct_card [OF distinct_nodes [of t]] by simp
  moreover have "x \<notin> fst ` set (nodes t)"
    using assms(3) by (simp add: has_key_def)
  ultimately have "card (insert x (fst ` set (nodes t))) = Suc (length (nodes t))"
    by simp
  moreover have "card (insert x (fst ` set (nodes t))) \<le> card (reached t)"
    using assms(4,5) finite_reached by (intro card_mono) auto
  ultimately have "card (reached t) \<noteq> length (nodes t)" by simp
  then show ?thesis
    using connected_reached [OF assms(1,2,6)] by simp
qed

lemma connected_dangling_false_example:
  "wf_tree dangling_child \<and> nodes dangling_child \<noteq> []
   \<and> \<not> has_key 7 (nodes dangling_child) \<and> 7 \<in> reached dangling_child
   \<and> map fst (nodes dangling_child) = [2, 3, 10]
   \<and> reached dangling_child = {2, 3, 7, 10}
   \<and> connected 4 dangling_child = Inr False"
proof -
  have n: "map fst (nodes dangling_child) = [2, 3, 10]"
    by (simp add: dangling_child_def nodes_def dict_of_def)
  have s: "start_node dangling_child = 2"
    by (simp add: dangling_child_def start_node_def nodes_def dict_of_def)
  have u: "undirected dangling_child
             = {(2, 10), (3, 10), (10, 7), (10, 2), (10, 3), (7, 10)}"
    by (auto simp: dangling_child_def undirected_def link_list_def)
  have "reached dangling_child \<subseteq> {2, 3, 7, 10}"
    unfolding reached_def s using reach_subset [of "undirected dangling_child" 2]
    by (auto simp: u)
  moreover have "(2, 10) \<in> (undirected dangling_child)\<^sup>*"
    "(2, 3) \<in> (undirected dangling_child)\<^sup>*" "(2, 7) \<in> (undirected dangling_child)\<^sup>*"
    unfolding u by (auto intro: rtrancl_trans [of 2 10 _ 3] rtrancl_trans [of 2 10 _ 7])
  ultimately have r: "reached dangling_child = {2, 3, 7, 10}"
    by (auto simp: reached_def s)
  have wf: "wf_tree dangling_child"
    by (simp add: dangling_child_def wf_tree_def)
  have ne: "nodes dangling_child \<noteq> []"
    using n by auto
  have d: "\<not> has_key 7 (nodes dangling_child)"
    by (simp add: has_key_def n)
  have "connected 4 dangling_child = Inr False"
    using wf ne d
  proof (rule connected_dangling_false)
    show "7 \<in> reached dangling_child" by (simp add: r)
    show "fst ` set (nodes dangling_child) \<subseteq> reached dangling_child"
    proof -
      have "fst ` set (nodes dangling_child) = set (map fst (nodes dangling_child))" by simp
      also have "\<dots> = {2, 3, 10}" unfolding n by simp
      finally show ?thesis unfolding r by blast
    qed
    show "card (reached dangling_child) \<le> 4" by (simp add: r)
  qed
  then show ?thesis
    using wf ne d n r by simp
qed

end
